theory Spec2Isabelle
  imports Main "HOL-Library.Word"
begin

unbundle bit_operations_syntax

section \<open>The test bench of \<open>conv3x3_accel_top\<close> (\<open>tb/tb_top.cpp\<close>)\<close>

text \<open>
  The bench drives a Verilator model through its pins. The model is opaque: it is a
  state of some type \<open>'u\<close>, a function that \<open>eval()\<close> applies to the pins the bench
  drives, and the values of the pins the model drives, read off its state. C \<open>int\<close>s
  are \<open>int\<close>: every counter of \<open>main\<close> is incremented only below a bound that is
  itself an \<open>int\<close> of the program, so none of them wraps. \<open>main_time\<close> is a
  \<open>vluint64_t\<close>, a 64-bit word. The data buses are arrays of four 32-bit words.
\<close>

subsection \<open>Pins\<close>

record pins_in =
  clk :: bool
  rst_n :: bool
  cfg_valid :: bool
  cfg_W :: int
  cfg_H :: int
  cfg_IC :: int
  cfg_OC :: int
  cfg_stride :: int
  cfg_act_bits :: int
  cfg_wgt_bits :: int
  cfg_mode_raw_out :: bool
  start :: bool
  wgt_in_valid :: bool
  wgt_in_last :: bool
  wgt_in_data :: "32 word list"
  act_in_valid :: bool
  act_in_last :: bool
  act_in_data :: "32 word list"
  out_ready :: bool

record pins_out =
  cfg_ready :: bool
  wgt_in_ready :: bool
  act_in_ready :: bool
  out_valid :: bool
  out_last :: bool
  done_sig :: bool
  error_code :: nat

record 'u dut =
  dut_eval :: "pins_in \<Rightarrow> 'u \<Rightarrow> 'u"
  dut_out :: "'u \<Rightarrow> pins_out"

subsection \<open>What the bench prints\<close>

datatype msg =
    Rule
  | Title
  | ResetComplete
  | TestConfig int int int int int int int
  | OutputSize int int
  | ConfigurationSent
  | SendingWeights int int
  | WeightsSent int int
  | SendingActivations int int
  | ActivationsSent int int
  | Waiting
  | OutputLastBeat
  | DoneSignal int
  | OutputReceived int
  | TotalCycles int
  | ErrorLine nat
  | NoErrorLine
  | SimulationComplete

subsection \<open>The state of \<open>main\<close>\<close>

text \<open>
  \<open>top\<close> is the pins the bench drives together with the model; \<open>vcd\<close> is what
  \<open>tfp->dump\<close> has written, one sample per call: the time stamp, the pins driven and
  the pins read back. \<open>rand_calls\<close> counts the calls of \<open>rand()\<close>, whose results are
  a parameter \<open>rnd\<close> of the bench (the \<open>k\<close>-th call returns \<open>rnd k\<close>). The remaining
  fields are the locals of \<open>main\<close> that its loops update.
\<close>

type_synonym sample = "64 word \<times> pins_in \<times> pins_out"

record 'u tb =
  pins :: pins_in
  core :: 'u
  main_time :: "64 word"
  vcd :: "sample list"
  console :: "msg list"
  rand_calls :: nat
  wgt_sent :: int
  act_sent :: int
  beat_count :: int
  out_received :: int
  cycles :: int

definition outs :: "'u dut \<Rightarrow> 'u tb \<Rightarrow> pins_out" where
  "outs D s = dut_out D (core s)"

definition printf :: "msg \<Rightarrow> 'u tb \<Rightarrow> 'u tb" where
  "printf m s = s\<lparr>console := console s @ [m]\<rparr>"

text \<open>
  One clock step, the four lines every loop of \<open>main\<close> repeats:
  \<^verbatim>\<open>top->clk = !top->clk; top->eval(); tfp->dump(main_time); main_time++;\<close>
\<close>

definition tick :: "'u dut \<Rightarrow> 'u tb \<Rightarrow> 'u tb" where
  "tick D s =
     (let p = (pins s)\<lparr>clk := \<not> clk (pins s)\<rparr>;
          u = dut_eval D p (core s)
      in s\<lparr>pins := p, core := u,
            vcd := vcd s @ [(main_time s, p, dut_out D u)],
            main_time := main_time s + 1\<rparr>)"

subsection \<open>Packing a beat\<close>

text \<open>
  The inner loop of the packing code (lines 135--139 and 171--175):
  \<^verbatim>\<open>for (int j = 0; j < 16 && sent < elements; j++) {
    int w = rand() & 0x3; word |= (w << (j * 2)); sent++; }\<close>
  The state of the loop is the word, the counter of elements sent and the number of
  calls of \<open>rand()\<close>. The shifted value is or-ed into an \<open>unsigned int\<close>, so it is
  taken modulo \<open>2 ^ 32\<close>.
\<close>

function pack_word ::
  "(nat \<Rightarrow> int) \<Rightarrow> int \<Rightarrow> nat \<Rightarrow> 32 word \<times> int \<times> nat \<Rightarrow> 32 word \<times> int \<times> nat" where
  "pack_word rnd n j (word, sent, r) =
     (if j < 16 \<and> sent < n
      then pack_word rnd n (j + 1)
             (word OR push_bit (j * 2) (word_of_int (rnd r AND 3)), sent + 1, r + 1)
      else (word, sent, r))"
  by pat_completeness auto
termination
  by (relation "measure (\<lambda>(rnd, n, j, st). 16 - j)") auto

text \<open>
  The outer loop (lines 133--141): \<^verbatim>\<open>for (int i = 0; i < 4; i++) { unsigned int word = 0;
  ...; data[i] = word; }\<close>. Its state is the bus, the counter and the calls of \<open>rand()\<close>.
\<close>

function pack_beat ::
  "(nat \<Rightarrow> int) \<Rightarrow> int \<Rightarrow> nat \<Rightarrow> 32 word list \<times> int \<times> nat \<Rightarrow> 32 word list \<times> int \<times> nat" where
  "pack_beat rnd n i (data, sent, r) =
     (if i < 4
      then (case pack_word rnd n 0 (0, sent, r) of
              (word, sent', r') \<Rightarrow> pack_beat rnd n (i + 1) (data[i := word], sent', r'))
      else (data, sent, r))"
  by pat_completeness auto
termination
  by (relation "measure (\<lambda>(rnd, n, i, st). 4 - i)") auto

declare pack_word.simps [simp del] pack_beat.simps [simp del]

subsection \<open>The weight channel (lines 129--155)\<close>

text \<open>The part of the loop body before the clock step (lines 130--144).\<close>

definition wgt_drive :: "'u dut \<Rightarrow> (nat \<Rightarrow> int) \<Rightarrow> int \<Rightarrow> 'u tb \<Rightarrow> 'u tb" where
  "wgt_drive D rnd wgt_elements s =
     (if wgt_in_ready (outs D s)
      then (case pack_beat rnd wgt_elements 0 (wgt_in_data (pins s), wgt_sent s, rand_calls s) of
              (data, sent, r) \<Rightarrow>
                s\<lparr>pins := (pins s)\<lparr>wgt_in_valid := True, wgt_in_data := data,
                                     wgt_in_last := (sent \<ge> wgt_elements)\<rparr>,
                  wgt_sent := sent, rand_calls := r, beat_count := beat_count s + 1\<rparr>)
      else s)"

text \<open>The part after the clock step (lines 151--153).\<close>

definition wgt_retire :: "'u dut \<Rightarrow> 'u tb \<Rightarrow> 'u tb" where
  "wgt_retire D s =
     (if wgt_in_ready (outs D s) \<and> wgt_in_valid (pins s)
      then s\<lparr>pins := (pins s)\<lparr>wgt_in_valid := False\<rparr>\<rparr>
      else s)"

definition wgt_body :: "'u dut \<Rightarrow> (nat \<Rightarrow> int) \<Rightarrow> int \<Rightarrow> 'u tb \<Rightarrow> 'u tb" where
  "wgt_body D rnd wgt_elements s = wgt_retire D (tick D (wgt_drive D rnd wgt_elements s))"

text \<open>
  The loop waits for the model and need not return: \<open>None\<close> is the run that stays in
  it for ever.
\<close>

partial_function (option) wgt_loop ::
  "'u dut \<Rightarrow> (nat \<Rightarrow> int) \<Rightarrow> int \<Rightarrow> 'u tb \<Rightarrow> 'u tb option" where
  "wgt_loop D rnd wgt_elements s =
     (if wgt_sent s < wgt_elements
      then wgt_loop D rnd wgt_elements (wgt_body D rnd wgt_elements s)
      else Some s)"

text \<open>Lines 121--156: the locals, the loop, and what follows it.\<close>

definition wgt_phase :: "'u dut \<Rightarrow> (nat \<Rightarrow> int) \<Rightarrow> int \<Rightarrow> int \<Rightarrow> 'u tb \<Rightarrow> 'u tb option" where
  "wgt_phase D rnd wgt_elements wgt_beats s =
     (case wgt_loop D rnd wgt_elements
             ((printf (SendingWeights wgt_elements wgt_beats) s)\<lparr>wgt_sent := 0, beat_count := 0\<rparr>) of
        None \<Rightarrow> None
      | Some t \<Rightarrow>
          (let t' = t\<lparr>pins := (pins t)\<lparr>wgt_in_valid := False\<rparr>\<rparr>
           in Some (printf (WeightsSent (wgt_sent t') (beat_count t')) t')))"

subsection \<open>The activation channel (lines 159--192)\<close>

definition act_drive :: "'u dut \<Rightarrow> (nat \<Rightarrow> int) \<Rightarrow> int \<Rightarrow> 'u tb \<Rightarrow> 'u tb" where
  "act_drive D rnd act_elements s =
     (if act_in_ready (outs D s)
      then (case pack_beat rnd act_elements 0 (act_in_data (pins s), act_sent s, rand_calls s) of
              (data, sent, r) \<Rightarrow>
                s\<lparr>pins := (pins s)\<lparr>act_in_valid := True, act_in_data := data,
                                     act_in_last := (sent \<ge> act_elements)\<rparr>,
                  act_sent := sent, rand_calls := r, beat_count := beat_count s + 1\<rparr>)
      else s)"

definition act_retire :: "'u dut \<Rightarrow> 'u tb \<Rightarrow> 'u tb" where
  "act_retire D s =
     (if act_in_ready (outs D s) \<and> act_in_valid (pins s)
      then s\<lparr>pins := (pins s)\<lparr>act_in_valid := False\<rparr>\<rparr>
      else s)"

definition act_body :: "'u dut \<Rightarrow> (nat \<Rightarrow> int) \<Rightarrow> int \<Rightarrow> 'u tb \<Rightarrow> 'u tb" where
  "act_body D rnd act_elements s = act_retire D (tick D (act_drive D rnd act_elements s))"

partial_function (option) act_loop ::
  "'u dut \<Rightarrow> (nat \<Rightarrow> int) \<Rightarrow> int \<Rightarrow> 'u tb \<Rightarrow> 'u tb option" where
  "act_loop D rnd act_elements s =
     (if act_sent s < act_elements
      then act_loop D rnd act_elements (act_body D rnd act_elements s)
      else Some s)"

definition act_phase :: "'u dut \<Rightarrow> (nat \<Rightarrow> int) \<Rightarrow> int \<Rightarrow> int \<Rightarrow> 'u tb \<Rightarrow> 'u tb option" where
  "act_phase D rnd act_elements act_beats s =
     (case act_loop D rnd act_elements
             ((printf (SendingActivations act_elements act_beats) s)\<lparr>act_sent := 0, beat_count := 0\<rparr>) of
        None \<Rightarrow> None
      | Some t \<Rightarrow>
          (let t' = t\<lparr>pins := (pins t)\<lparr>act_in_valid := False\<rparr>\<rparr>
           in Some (printf (ActivationsSent (act_sent t') (beat_count t')) t')))"

subsection \<open>Collecting the output (lines 197--225)\<close>

text \<open>The test of \<open>done\<close> that ends the loop body (lines 218--221); the flag says \<open>break\<close>.\<close>

definition out_done :: "'u dut \<Rightarrow> 'u tb \<Rightarrow> 'u tb \<times> bool" where
  "out_done D s =
     (if done_sig (outs D s) then (printf (DoneSignal (cycles s)) s, True) else (s, False))"

definition out_body :: "'u dut \<Rightarrow> 'u tb \<Rightarrow> 'u tb \<times> bool" where
  "out_body D s =
     (let s1 = (tick D s)\<lparr>cycles := cycles s + 1\<rparr>
      in if out_valid (outs D s1) \<and> out_ready (pins s1)
         then (let s2 = s1\<lparr>out_received := out_received s1 + 4\<rparr>
               in if out_last (outs D s2) then (printf OutputLastBeat s2, True)
                  else out_done D s2)
         else out_done D s1)"

function out_loop :: "'u dut \<Rightarrow> int \<Rightarrow> int \<Rightarrow> 'u tb \<Rightarrow> 'u tb" where
  "out_loop D max_cycles out_elements s =
     (if cycles s < max_cycles \<and> out_received s < out_elements
      then (case out_body D s of
              (s', brk) \<Rightarrow> if brk then s' else out_loop D max_cycles out_elements s')
      else s)"
  by pat_completeness auto
termination
proof (relation "measure (\<lambda>(D, max_cycles, out_elements, s). nat (max_cycles - cycles s))")
  show "wf (measure (\<lambda>(D, max_cycles, out_elements, s). nat (max_cycles - cycles s)))"
    by simp
next
  fix D :: "'u dut" and max_cycles out_elements :: int and s x :: "'u tb" and brk x2
  assume g: "cycles s < max_cycles \<and> out_received s < out_elements"
    and b: "(x, brk) = out_body D s"
  have "cycles (fst (out_body D s)) = cycles s + 1"
    by (simp add: out_body_def out_done_def printf_def tick_def Let_def)
  then have "cycles x = cycles s + 1"
    using b [symmetric] by simp
  with g show "((D, max_cycles, out_elements, x), (D, max_cycles, out_elements, s))
        \<in> measure (\<lambda>(D, max_cycles, out_elements, s). nat (max_cycles - cycles s))"
    by simp
qed

declare out_loop.simps [simp del]

definition out_phase :: "'u dut \<Rightarrow> int \<Rightarrow> int \<Rightarrow> 'u tb \<Rightarrow> 'u tb" where
  "out_phase D max_cycles out_elements s =
     (let t = out_loop D max_cycles out_elements
                ((printf Waiting s)\<lparr>out_received := 0, cycles := 0\<rparr>)
      in printf (TotalCycles (cycles t)) (printf (OutputReceived (out_received t)) t))"

subsection \<open>The error check and the end of \<open>main\<close> (lines 227--242)\<close>

text \<open>The line that the test of \<open>error_code\<close> prints (lines 228--232).\<close>

definition verdict :: "'u dut \<Rightarrow> 'u tb \<Rightarrow> msg" where
  "verdict D s =
     (if error_code (outs D s) \<noteq> 0 then ErrorLine (error_code (outs D s)) else NoErrorLine)"

definition check_error :: "'u dut \<Rightarrow> 'u tb \<Rightarrow> 'u tb" where
  "check_error D s = printf (verdict D s) s"

definition finish :: "'u dut \<Rightarrow> 'u tb \<Rightarrow> int \<times> 'u tb" where
  "finish D s = (0, printf Rule (printf SimulationComplete (printf Rule (check_error D s))))"

subsection \<open>Reset, configuration and start (lines 40--118)\<close>

definition init :: "'u \<Rightarrow> 'u tb" where
  "init u =
     \<lparr>pins = \<lparr>clk = False, rst_n = False, cfg_valid = False, cfg_W = 0, cfg_H = 0,
               cfg_IC = 0, cfg_OC = 0, cfg_stride = 0, cfg_act_bits = 0, cfg_wgt_bits = 0,
               cfg_mode_raw_out = False, start = False, wgt_in_valid = False,
               wgt_in_last = False, wgt_in_data = [0, 0, 0, 0], act_in_valid = False,
               act_in_last = False, act_in_data = [0, 0, 0, 0], out_ready = True\<rparr>,
      core = u, main_time = 0, vcd = [], console = [Rule, Title, Rule], rand_calls = 0,
      wgt_sent = 0, act_sent = 0, beat_count = 0, out_received = 0, cycles = 0\<rparr>"

definition reset_phase :: "'u dut \<Rightarrow> 'u tb \<Rightarrow> 'u tb" where
  "reset_phase D s =
     (let t = (tick D ^^ 20) s
      in printf ResetComplete (t\<lparr>pins := (pins t)\<lparr>rst_n := True\<rparr>\<rparr>))"

text \<open>
  C division truncates towards zero. The test configuration (lines 82--86) and the
  sizes derived from it (lines 121, 122, 159, 160, 198, 199).
\<close>

definition c_div :: "int \<Rightarrow> int \<Rightarrow> int" where
  "c_div a b = sgn a * sgn b * (\<bar>a\<bar> div \<bar>b\<bar>)"

definition W :: int where "W = 8"
definition H :: int where "H = 8"
definition IC :: int where "IC = 16"
definition OC :: int where "OC = 16"
definition stride :: int where "stride = 0"
definition act_bits :: int where "act_bits = 2"
definition wgt_bits :: int where "wgt_bits = 2"
definition OH :: int where "OH = c_div (H - 3) (stride + 1) + 1"
definition OW :: int where "OW = c_div (W - 3) (stride + 1) + 1"
definition wgt_elements :: int where "wgt_elements = OC * IC * 9"
definition wgt_beats :: int where "wgt_beats = c_div (wgt_elements * wgt_bits + 127) 128"
definition act_elements :: int where "act_elements = H * W * IC"
definition act_beats :: int where "act_beats = c_div (act_elements * act_bits + 127) 128"
definition out_elements :: int where "out_elements = OH * OW * OC"
definition max_cycles :: int where "max_cycles = 100000"

definition send_config :: "'u tb \<Rightarrow> 'u tb" where
  "send_config s =
     (printf (OutputSize OH OW)
        (printf (TestConfig W H IC OC (stride + 1) act_bits wgt_bits) s))
     \<lparr>pins := (pins s)\<lparr>cfg_valid := True, cfg_W := W, cfg_H := H, cfg_IC := IC, cfg_OC := OC,
                         cfg_stride := stride, cfg_act_bits := act_bits,
                         cfg_wgt_bits := wgt_bits, cfg_mode_raw_out := True\<rparr>\<rparr>"

partial_function (option) cfg_loop :: "'u dut \<Rightarrow> 'u tb \<Rightarrow> 'u tb option" where
  "cfg_loop D s = (if \<not> cfg_ready (outs D s) then cfg_loop D (tick D s) else Some s)"

definition start_pulse :: "'u dut \<Rightarrow> 'u tb \<Rightarrow> 'u tb" where
  "start_pulse D s =
     (let s1 = tick D (s\<lparr>pins := (pins s)\<lparr>cfg_valid := False, start := True\<rparr>\<rparr>)
      in printf ConfigurationSent (s1\<lparr>pins := (pins s1)\<lparr>start := False\<rparr>\<rparr>))"

subsection \<open>\<open>main\<close>\<close>

definition main :: "'u dut \<Rightarrow> (nat \<Rightarrow> int) \<Rightarrow> 'u \<Rightarrow> (int \<times> 'u tb) option" where
  "main D rnd u =
     (case cfg_loop D (send_config (reset_phase D (init u))) of
        None \<Rightarrow> None
      | Some s1 \<Rightarrow>
          (case wgt_phase D rnd wgt_elements wgt_beats (start_pulse D s1) of
             None \<Rightarrow> None
           | Some s2 \<Rightarrow>
               (case act_phase D rnd act_elements act_beats s2 of
                  None \<Rightarrow> None
                | Some s3 \<Rightarrow> Some (finish D (out_phase D max_cycles out_elements s3)))))"

subsection \<open>Reading a beat\<close>

text \<open>
  The bench never unpacks a beat. To say where an element lies, \<open>fld w e\<close> is the
  \<open>e\<close>-th two-bit field of a word and \<open>lane_field data lane off\<close> the two bits of
  lane \<open>lane\<close> of a bus at bit offset \<open>off\<close>. \<open>rand_demo\<close> is a sequence of results of
  \<open>rand()\<close> for the examples, and \<open>lanes0\<close> the bus as line 66 leaves it.
\<close>

definition fld :: "32 word \<Rightarrow> nat \<Rightarrow> 32 word" where
  "fld w e = take_bit 2 (drop_bit (e * 2) w)"

definition lane_field :: "32 word list \<Rightarrow> nat \<Rightarrow> nat \<Rightarrow> 32 word" where
  "lane_field data lane off = take_bit 2 (drop_bit off (data ! lane))"

definition rand_demo :: "nat \<Rightarrow> int" where
  "rand_demo k = int k"

definition lanes0 :: "32 word list" where
  "lanes0 = [0, 0, 0, 0]"

subsection \<open>The outcome of a run, as the specification classifies it\<close>



text \<open>A sample of the dump in which an output beat is accepted (line 209).\<close>

definition accepted :: "sample \<Rightarrow> bool" where
  "accepted x = (case x of (tm, p, out) \<Rightarrow> out_valid out \<and> out_ready p)"

subsection \<open>Runs and models for the examples\<close>





text \<open>
  A model for the examples. Its state counts the calls of \<open>eval()\<close>; it accepts the
  configuration at once, is ready for a beat at every \<open>p\<close>-th count, offers an output
  beat at every \<open>q\<close>-th count (never if \<open>q = 0\<close>), never raises \<open>out_last\<close>, raises
  \<open>done\<close> throughout if \<open>d\<close>, and shows the error code \<open>e\<close>.
\<close>

definition dut_demo :: "nat \<Rightarrow> nat \<Rightarrow> bool \<Rightarrow> nat \<Rightarrow> nat dut" where
  "dut_demo p q d e =
     \<lparr>dut_eval = (\<lambda>i u. u + 1),
      dut_out = (\<lambda>u. \<lparr>cfg_ready = True, wgt_in_ready = (u mod p = 0),
                       act_in_ready = (u mod p = 0), out_valid = (0 < q \<and> u mod q = 0),
                       out_last = False, done_sig = d, error_code = e\<rparr>)\<rparr>"

section \<open>Properties\<close>

subsection \<open>The layout of a beat\<close>

lemma bit_fld: "bit (fld w e) k = (k < 2 \<and> bit w (e * 2 + k))"
  by (auto simp: fld_def bit_simps)

lemma and_3_int: "(x::int) AND 3 = take_bit 2 x"
  by (simp add: take_bit_eq_mask mask_eq_exp_minus_1)

lemma bit_elem:
  "bit (push_bit (j * 2) (word_of_int (x AND 3)) :: 32 word) k
     = (j * 2 \<le> k \<and> k < 32 \<and> k < j * 2 + 2 \<and> bit x (k - j * 2))"
  by (auto simp: and_3_int bit_simps)

lemma fld_or_other:
  "e \<noteq> j \<Longrightarrow> fld (w OR push_bit (j * 2) (word_of_int (x AND 3))) e = fld w e"
  apply (rule bit_eqI)
  apply (simp add: bit_fld bit_or_iff bit_elem)
  by (auto; presburger)

lemma fld_or_same:
  "j < 16 \<Longrightarrow> fld w j = 0 \<Longrightarrow>
     fld (w OR push_bit (j * 2) (word_of_int (x AND 3))) j = word_of_int (x AND 3)"
proof (rule bit_eqI)
  fix k
  assume j: "j < 16" and z: "fld w j = 0"
  have "\<not> bit (fld w j) k" using z by simp
  then have nb: "k < 2 \<Longrightarrow> \<not> bit w (j * 2 + k)" by (simp add: bit_fld)
  show "bit (fld (w OR push_bit (j * 2) (word_of_int (x AND 3))) j) k
      = bit (word_of_int (x AND 3) :: 32 word) k"
    using j nb by (auto simp: bit_fld bit_or_iff bit_elem and_3_int bit_simps)
qed

text \<open>
  The inner loop started at \<open>j\<close> on a word whose fields from \<open>j\<close> on are empty: it
  runs \<open>min (16 - j) (n - sent)\<close> times and fills one field after the other.
\<close>

lemma pack_word_fld:
  "pack_word rnd n j (w, sent, r) = (w', sent', r') \<Longrightarrow> j \<le> 16 \<Longrightarrow>
   (\<forall>e\<ge>j. fld w e = 0) \<Longrightarrow>
   r' = r + min (16 - j) (nat (n - sent)) \<and>
   sent' = sent + int (min (16 - j) (nat (n - sent))) \<and>
   (\<forall>e. fld w' e = (if j \<le> e \<and> e < j + (r' - r)
                      then word_of_int (rnd (r + (e - j)) AND 3) else fld w e))"
proof (induction rnd n j "(w, sent, r)" arbitrary: w sent r rule: pack_word.induct)
  case (1 rnd n j word sent r)
  show ?case
  proof (cases "j < 16 \<and> sent < n")
    case True
    let ?w1 = "word OR push_bit (j * 2) (word_of_int (rnd r AND 3))"
    have step: "pack_word rnd n (j + 1) (?w1, sent + 1, r + 1) = (w', sent', r')"
      using "1.prems"(1) True by (simp add: pack_word.simps)
    have z: "\<forall>e\<ge>j + 1. fld ?w1 e = 0"
      using "1.prems"(3) by (simp add: fld_or_other)
    have same: "fld ?w1 j = word_of_int (rnd r AND 3)"
      using True "1.prems"(3) by (simp add: fld_or_same)
    note IH = "1.hyps" [OF True step _ z]
    have ih: "r' = r + 1 + min (16 - (j + 1)) (nat (n - (sent + 1)))"
      "sent' = sent + 1 + int (min (16 - (j + 1)) (nat (n - (sent + 1))))"
      "\<And>e. fld w' e = (if j + 1 \<le> e \<and> e < j + 1 + (r' - (r + 1))
                        then word_of_int (rnd (r + 1 + (e - (j + 1))) AND 3) else fld ?w1 e)"
      using IH True by auto
    have a: "r' = r + min (16 - j) (nat (n - sent))"
      using ih(1) True by (auto simp: min_def)
    have b: "sent' = sent + int (min (16 - j) (nat (n - sent)))"
      using ih(2) True by (auto simp: min_def)
    have c: "fld w' e = (if j \<le> e \<and> e < j + (r' - r)
                         then word_of_int (rnd (r + (e - j)) AND 3) else fld word e)" for e
    proof (cases "e = j")
      case True
      then show ?thesis using ih(3) [of e] same ih(1) by simp
    next
      case False
      have "r + 1 + (e - (j + 1)) = r + (e - j)" if "j + 1 \<le> e" using that by simp
      then show ?thesis using ih(3) [of e] False ih(1) by (auto simp: fld_or_other)
    qed
    show ?thesis using a b c by blast
  next
    case False
    then have "w' = word" "sent' = sent" "r' = r" using "1.prems"(1) by (auto simp: pack_word.simps)
    then show ?thesis using False "1.prems"(2) by (auto simp: min_def)
  qed
qed

lemma pack_word_0:
  assumes "pack_word rnd n 0 (0, sent, r) = (w', sent', r')"
  shows "r' = r + min 16 (nat (n - sent))"
    and "sent' = sent + int (min 16 (nat (n - sent)))"
    and "e < r' - r \<Longrightarrow> fld w' e = word_of_int (rnd (r + e) AND 3)"
proof -
  have z: "\<forall>e\<ge>0. fld 0 e = 0" by (simp add: fld_def)
  note P = pack_word_fld [OF assms _ z]
  show "r' = r + min 16 (nat (n - sent))"
    and "sent' = sent + int (min 16 (nat (n - sent)))"
    using P by simp_all
  show "e < r' - r \<Longrightarrow> fld w' e = word_of_int (rnd (r + e) AND 3)"
    using P by simp
qed

lemma min_lanes:
  "i < 4 \<Longrightarrow> min 16 k + min (16 * (4 - (i + 1))) (k - min 16 k) = min (16 * (4 - i)) (k::nat)"
  by arith

lemma nat_rest: "nat (n - (sent + int (min 16 (nat (n - sent))))) = nat (n - sent) - min 16 (nat (n - sent))"
  by arith

text \<open>The outer loop started at lane \<open>i\<close> consumes \<open>min (16 * (4 - i)) (n - sent)\<close> elements.\<close>

lemma pack_beat_count:
  "pack_beat rnd n i (data, sent, r) = (data', sent', r') \<Longrightarrow> i \<le> 4 \<Longrightarrow>
   r' = r + min (16 * (4 - i)) (nat (n - sent)) \<and>
   sent' = sent + int (min (16 * (4 - i)) (nat (n - sent)))"
proof (induction rnd n i "(data, sent, r)" arbitrary: data sent r rule: pack_beat.induct)
  case (1 rnd n i data sent r)
  show ?case
  proof (cases "i < 4")
    case True
    obtain word s1 r1 where pw: "pack_word rnd n 0 (0, sent, r) = (word, s1, r1)"
      by (metis prod_cases3)
    have step: "pack_beat rnd n (i + 1) (data[i := word], s1, r1) = (data', sent', r')"
      using "1.prems"(1) True pw by (simp add: pack_beat.simps)
    note W = pack_word_0 [OF pw]
    have i1: "i + 1 \<le> 4" using True by simp
    note IH = "1.hyps" [OF True pw [symmetric] refl step i1]
    let ?k = "nat (n - sent)"
    have k1: "nat (n - s1) = ?k - min 16 ?k"
      unfolding W(2) by (rule nat_rest)
    have r': "r' = r + (min 16 ?k + min (16 * (4 - (i + 1))) (?k - min 16 ?k))"
      using IH W(1) k1 by simp
    have s': "sent' = sent + int (min 16 ?k + min (16 * (4 - (i + 1))) (?k - min 16 ?k))"
      using IH W(2) k1 by simp
    show ?thesis
      using r' s' unfolding min_lanes [OF True] by blast
  next
    case False
    then have "sent' = sent" "r' = r"
      using "1.prems"(1) by (auto simp: pack_beat.simps)
    then show ?thesis using False "1.prems" by auto
  qed
qed

text \<open>
  The outer loop started at lane \<open>i\<close>: it consumes \<open>min (16 * (4 - i)) (n - sent)\<close>
  elements, leaves the lanes below \<open>i\<close> alone and fills the others in order.
\<close>

lemma pack_beat_fld:
  "pack_beat rnd n i (data, sent, r) = (data', sent', r') \<Longrightarrow> i \<le> 4 \<Longrightarrow> length data = 4 \<Longrightarrow>
   r' = r + min (16 * (4 - i)) (nat (n - sent)) \<and>
   sent' = sent + int (min (16 * (4 - i)) (nat (n - sent))) \<and>
   length data' = 4 \<and>
   (\<forall>l<i. data' ! l = data ! l) \<and>
   (\<forall>l e. i \<le> l \<and> l < 4 \<and> e < 16 \<and> (l - i) * 16 + e < r' - r \<longrightarrow>
       fld (data' ! l) e = word_of_int (rnd (r + ((l - i) * 16 + e)) AND 3))"
proof (induction rnd n i "(data, sent, r)" arbitrary: data sent r rule: pack_beat.induct)
  case (1 rnd n i data sent r)
  show ?case
  proof (cases "i < 4")
    case True
    obtain word s1 r1 where pw: "pack_word rnd n 0 (0, sent, r) = (word, s1, r1)"
      by (metis prod_cases3)
    have step: "pack_beat rnd n (i + 1) (data[i := word], s1, r1) = (data', sent', r')"
      using "1.prems"(1) True pw by (simp add: pack_beat.simps)
    note W = pack_word_0 [OF pw]
    have len: "length (data[i := word]) = 4" using "1.prems"(3) by simp
    have i1: "i + 1 \<le> 4" using True by simp
    note IH = "1.hyps" [OF True pw [symmetric] refl step i1 len]
    have r': "r' = r1 + min (16 * (4 - (i + 1))) (nat (n - s1))"
      and s': "sent' = s1 + int (min (16 * (4 - (i + 1))) (nat (n - s1)))"
      and l': "length data' = 4"
      and keep: "\<And>l. l < i + 1 \<Longrightarrow> data' ! l = data[i := word] ! l"
      and new: "\<And>l e. i + 1 \<le> l \<Longrightarrow> l < 4 \<Longrightarrow> e < 16 \<Longrightarrow>
         (l - (i + 1)) * 16 + e < r' - r1 \<Longrightarrow>
         fld (data' ! l) e = word_of_int (rnd (r1 + ((l - (i + 1)) * 16 + e)) AND 3)"
      using IH by auto
    have a: "r' = r + min (16 * (4 - i)) (nat (n - sent))"
      and b: "sent' = sent + int (min (16 * (4 - i)) (nat (n - sent)))"
      using pack_beat_count [OF "1.prems"(1) "1.prems"(2)] by simp_all
    have c: "\<forall>l<i. data' ! l = data ! l"
      using keep by simp
    have d: "fld (data' ! l) e = word_of_int (rnd (r + ((l - i) * 16 + e)) AND 3)"
      if h: "i \<le> l" "l < 4" "e < 16" "(l - i) * 16 + e < r' - r" for l e
    proof (cases "l = i")
      case True
      have "data' ! l = word"
        using keep [of l] True "1.prems"(3) \<open>i < 4\<close> by simp
      moreover have "e < r1 - r"
        using h True r' W(1) W(2) by (auto simp: min_def split: if_splits)
      ultimately show ?thesis using W(3) [of e] True by simp
    next
      case False
      then have li: "i + 1 \<le> l" using h by simp
      have full: "r1 = r + 16"
        using h li r' W(1) W(2) by (auto simp: min_def split: if_splits)
      have idx: "(l - i) * 16 + e = 16 + ((l - (i + 1)) * 16 + e)"
        using li by (simp add: algebra_simps)
      have "(l - (i + 1)) * 16 + e < r' - r1" using h idx full by simp
      from new [OF li h(2) h(3) this] show ?thesis using full idx by (simp add: add.assoc)
    qed
    show ?thesis using a b c d l' by blast
  next
    case False
    then have "data' = data" "sent' = sent" "r' = r" using "1.prems"(1) by (auto simp: pack_beat.simps)
    then show ?thesis using False "1.prems" by auto
  qed
qed

lemma pack_beat_0:
  assumes "pack_beat rnd n 0 (data, sent, r) = (data', sent', r')" and "length data = 4"
  shows "r' = r + min 64 (nat (n - sent))"
    and "sent' = sent + int (min 64 (nat (n - sent)))"
    and "length data' = 4"
    and "l < 4 \<Longrightarrow> e < 16 \<Longrightarrow> l * 16 + e < r' - r \<Longrightarrow>
           fld (data' ! l) e = word_of_int (rnd (r + (l * 16 + e)) AND 3)"
  using pack_beat_fld [OF assms(1) _ assms(2)] by simp_all

text \<open>
  C1, as the code has it. In a beat that \<open>pack_beat\<close> fills, the \<open>e\<close>-th element packed
  (the \<open>e\<close>-th result of \<open>rand()\<close> since the beat began, masked to two bits) lies in lane
  \<open>e div 16\<close> at bit offset \<open>(e mod 16) * 2\<close>: low to high within a lane, lane after
  lane, in the order of the stream.
\<close>

theorem pack_beat_layout:
  assumes "pack_beat rnd n 0 (data, sent, r) = (data', sent', r')"
    and "length data = 4"
    and "int e < sent' - sent"
  shows "lane_field data' (e div 16) ((e mod 16) * 2) = word_of_int (rnd (r + e) AND 3)"
proof -
  note P = pack_beat_0 [OF assms(1) assms(2)]
  have e: "e < r' - r" using P(1) P(2) assms(3) by simp
  then have e64: "e < 64" using P(1) by simp
  have "fld (data' ! (e div 16)) (e mod 16)
          = word_of_int (rnd (r + ((e div 16) * 16 + e mod 16)) AND 3)"
    using e e64 by (intro P(4)) simp_all
  then show ?thesis by (simp add: lane_field_def fld_def)
qed

theorem pack_beat_layout_witness:
  "lane_field (fst (pack_beat rand_demo 70 0 (lanes0, 0, 0))) (17 div 16) ((17 mod 16) * 2)
     = word_of_int (rand_demo (0 + 17) AND 3)"
proof -
  obtain data' sent' r' where p: "pack_beat rand_demo 70 0 (lanes0, 0, 0) = (data', sent', r')"
    by (metis prod_cases3)
  have l: "length lanes0 = 4" by (simp add: lanes0_def)
  have "sent' = 64" using pack_beat_0(2) [OF p l] by simp
  then have e: "int 17 < sent' - 0" by simp
  show ?thesis using pack_beat_layout [OF p l e] p by simp
qed

text \<open>
  C1, as the specification words it (element \<open>i\<close> in lane \<open>i mod 4\<close> at bit offset
  \<open>(i div 4) * 2\<close>), fails: element 1 of the first beat is not in lane 1 at offset 0.
\<close>

theorem pack_beat_lane_major_counterexample:
  "lane_field (fst (pack_beat rand_demo 64 0 (lanes0, 0, 0))) (1 mod 4) ((1 div 4) * 2)
     \<noteq> word_of_int (rand_demo 1 AND 3)"
  by code_simp

subsection \<open>One pass through the body of a load loop\<close>


lemma wgt_drive_stalled: "\<not> wgt_in_ready (outs D s) \<Longrightarrow> wgt_drive D rnd n s = s"
  by (simp add: wgt_drive_def)




lemma outs_act_retire: "outs D (act_retire D s) = outs D s"
  by (simp add: act_retire_def outs_def)

lemma act_drive_stalled: "\<not> act_in_ready (outs D s) \<Longrightarrow> act_drive D rnd n s = s"
  by (simp add: act_drive_def)

lemma act_retire_stalled: "\<not> act_in_ready (outs D s) \<Longrightarrow> act_retire D s = s"
  by (simp add: act_retire_def)

lemma tick_keeps:
  "wgt_in_valid (pins (tick D s)) = wgt_in_valid (pins s)"
  "wgt_in_data (pins (tick D s)) = wgt_in_data (pins s)"
  "wgt_in_last (pins (tick D s)) = wgt_in_last (pins s)"
  "act_in_valid (pins (tick D s)) = act_in_valid (pins s)"
  "act_in_data (pins (tick D s)) = act_in_data (pins s)"
  "act_in_last (pins (tick D s)) = act_in_last (pins s)"
  "start (pins (tick D s)) = start (pins s)"
  "out_ready (pins (tick D s)) = out_ready (pins s)"
  "wgt_sent (tick D s) = wgt_sent s"
  "act_sent (tick D s) = act_sent s"
  "beat_count (tick D s) = beat_count s"
  "out_received (tick D s) = out_received s"
  "cycles (tick D s) = cycles s"
  "rand_calls (tick D s) = rand_calls s"
  "console (tick D s) = console s"
  by (simp_all add: tick_def Let_def)

lemma wgt_drive_valid:
  "wgt_in_ready (outs D s) \<Longrightarrow> wgt_in_valid (pins (wgt_drive D rnd n s))"
  by (simp add: wgt_drive_def split: prod.splits)

lemma act_drive_valid:
  "act_in_ready (outs D s) \<Longrightarrow> act_in_valid (pins (act_drive D rnd n s))"
  by (simp add: act_drive_def split: prod.splits)

lemma wgt_retire_valid:
  "wgt_in_valid (pins (wgt_retire D s)) = (wgt_in_valid (pins s) \<and> \<not> wgt_in_ready (outs D s))"
  by (auto simp: wgt_retire_def)

lemma act_retire_valid:
  "act_in_valid (pins (act_retire D s)) = (act_in_valid (pins s) \<and> \<not> act_in_ready (outs D s))"
  by (auto simp: act_retire_def)

subsection \<open>A beat is held while the model is not ready\<close>


subsection \<open>Valid is raised only on a ready model\<close>

text \<open>
  C10. On either channel: a pass that finds ready low before the clock step changes
  nothing before it, so valid is not raised; a pass that finds ready high drives a beat
  with valid high; when ready and valid are both high after the clock step, valid is
  low at the end of the pass; the clock step itself leaves valid alone. Hence valid
  rises over a pass only if ready was read high at its top.
\<close>

theorem valid_only_on_ready:
  "(\<not> wgt_in_ready (outs D s) \<longrightarrow> wgt_drive D rnd n s = s)
   \<and> (wgt_in_ready (outs D s) \<longrightarrow> wgt_in_valid (pins (wgt_drive D rnd n s)))
   \<and> (wgt_in_ready (outs D (tick D (wgt_drive D rnd n s)))
        \<and> wgt_in_valid (pins (tick D (wgt_drive D rnd n s)))
        \<longrightarrow> \<not> wgt_in_valid (pins (wgt_body D rnd n s)))
   \<and> (wgt_in_valid (pins (wgt_body D rnd n s)) \<and> \<not> wgt_in_valid (pins s)
        \<longrightarrow> wgt_in_ready (outs D s))
   \<and> (\<not> act_in_ready (outs D s) \<longrightarrow> act_drive D rnd n s = s)
   \<and> (act_in_ready (outs D s) \<longrightarrow> act_in_valid (pins (act_drive D rnd n s)))
   \<and> (act_in_ready (outs D (tick D (act_drive D rnd n s)))
        \<and> act_in_valid (pins (tick D (act_drive D rnd n s)))
        \<longrightarrow> \<not> act_in_valid (pins (act_body D rnd n s)))
   \<and> (act_in_valid (pins (act_body D rnd n s)) \<and> \<not> act_in_valid (pins s)
        \<longrightarrow> act_in_ready (outs D s))"
proof -
  have w1: "\<not> wgt_in_ready (outs D s) \<longrightarrow> wgt_drive D rnd n s = s"
    by (simp add: wgt_drive_stalled)
  have w2: "wgt_in_ready (outs D s) \<longrightarrow> wgt_in_valid (pins (wgt_drive D rnd n s))"
    by (simp add: wgt_drive_valid)
  have w3: "wgt_in_ready (outs D (tick D (wgt_drive D rnd n s)))
        \<and> wgt_in_valid (pins (tick D (wgt_drive D rnd n s)))
        \<longrightarrow> \<not> wgt_in_valid (pins (wgt_body D rnd n s))"
    unfolding wgt_body_def wgt_retire_valid by blast
  have w4: "wgt_in_valid (pins (wgt_body D rnd n s)) \<and> \<not> wgt_in_valid (pins s)
        \<longrightarrow> wgt_in_ready (outs D s)"
  proof (cases "wgt_in_ready (outs D s)")
    case True
    then show ?thesis by blast
  next
    case False
    then have "wgt_in_valid (pins (wgt_body D rnd n s)) \<longrightarrow> wgt_in_valid (pins s)"
      unfolding wgt_body_def wgt_retire_valid by (simp add: wgt_drive_stalled tick_keeps)
    then show ?thesis by blast
  qed
  have a1: "\<not> act_in_ready (outs D s) \<longrightarrow> act_drive D rnd n s = s"
    by (simp add: act_drive_stalled)
  have a2: "act_in_ready (outs D s) \<longrightarrow> act_in_valid (pins (act_drive D rnd n s))"
    by (simp add: act_drive_valid)
  have a3: "act_in_ready (outs D (tick D (act_drive D rnd n s)))
        \<and> act_in_valid (pins (tick D (act_drive D rnd n s)))
        \<longrightarrow> \<not> act_in_valid (pins (act_body D rnd n s))"
    unfolding act_body_def act_retire_valid by blast
  have a4: "act_in_valid (pins (act_body D rnd n s)) \<and> \<not> act_in_valid (pins s)
        \<longrightarrow> act_in_ready (outs D s)"
  proof (cases "act_in_ready (outs D s)")
    case True
    then show ?thesis by blast
  next
    case False
    then have "act_in_valid (pins (act_body D rnd n s)) \<longrightarrow> act_in_valid (pins s)"
      unfolding act_body_def act_retire_valid by (simp add: act_drive_stalled tick_keeps)
    then show ?thesis by blast
  qed
  from w1 w2 w3 w4 a1 a2 a3 a4 show ?thesis by (intro conjI)
qed

subsection \<open>The empty stream\<close>

text \<open>
  C8. With no element to send the guard of the loop fails at once: the phase returns
  without a clock step (nothing is dumped, the model is not evaluated), without a
  call of \<open>rand()\<close>, with no beat counted and with valid low. The same on the
  activation channel.
\<close>

theorem empty_stream:
  "(\<exists>t. wgt_phase D rnd 0 b s = Some t \<and> vcd t = vcd s \<and> main_time t = main_time s
        \<and> core t = core s \<and> rand_calls t = rand_calls s \<and> beat_count t = 0
        \<and> wgt_sent t = 0 \<and> \<not> wgt_in_valid (pins t)
        \<and> wgt_in_data (pins t) = wgt_in_data (pins s)
        \<and> console t = console s @ [SendingWeights 0 b, WeightsSent 0 0])
   \<and> (\<exists>t. act_phase D rnd 0 b s = Some t \<and> vcd t = vcd s \<and> main_time t = main_time s
        \<and> core t = core s \<and> rand_calls t = rand_calls s \<and> beat_count t = 0
        \<and> act_sent t = 0 \<and> \<not> act_in_valid (pins t)
        \<and> act_in_data (pins t) = act_in_data (pins s)
        \<and> console t = console s @ [SendingActivations 0 b, ActivationsSent 0 0])"
proof -
  have w: "wgt_loop D rnd 0 (x\<lparr>wgt_sent := 0, beat_count := 0\<rparr>)
             = Some (x\<lparr>wgt_sent := 0, beat_count := 0\<rparr>)" for x :: "'a tb"
    by (subst wgt_loop.simps) simp
  have a: "act_loop D rnd 0 (x\<lparr>act_sent := 0, beat_count := 0\<rparr>)
             = Some (x\<lparr>act_sent := 0, beat_count := 0\<rparr>)" for x :: "'a tb"
    by (subst act_loop.simps) simp
  show ?thesis
    by (simp add: wgt_phase_def act_phase_def w a printf_def Let_def)
qed

subsection \<open>The counters of a pass, and the model of the examples\<close>

lemma wgt_drive_ready:
  assumes "wgt_in_ready (outs D s)"
  shows "wgt_sent (wgt_drive D rnd n s) = wgt_sent s + int (min 64 (nat (n - wgt_sent s)))"
    and "rand_calls (wgt_drive D rnd n s) = rand_calls s + min 64 (nat (n - wgt_sent s))"
    and "beat_count (wgt_drive D rnd n s) = beat_count s + 1"
    and "wgt_in_last (pins (wgt_drive D rnd n s)) = (n \<le> wgt_sent (wgt_drive D rnd n s))"
proof -
  obtain data sent r where
    p: "pack_beat rnd n 0 (wgt_in_data (pins s), wgt_sent s, rand_calls s) = (data, sent, r)"
    by (metis prod_cases3)
  have d: "wgt_drive D rnd n s =
      s\<lparr>pins := (pins s)\<lparr>wgt_in_valid := True, wgt_in_data := data,
                          wgt_in_last := (sent \<ge> n)\<rparr>,
        wgt_sent := sent, rand_calls := r, beat_count := beat_count s + 1\<rparr>"
    using assms p by (simp add: wgt_drive_def)
  note C = pack_beat_count [OF p]
  show "wgt_sent (wgt_drive D rnd n s) = wgt_sent s + int (min 64 (nat (n - wgt_sent s)))"
    using C by (simp add: d)
  show "rand_calls (wgt_drive D rnd n s) = rand_calls s + min 64 (nat (n - wgt_sent s))"
    using C by (simp add: d)
  show "beat_count (wgt_drive D rnd n s) = beat_count s + 1"
    by (simp add: d)
  show "wgt_in_last (pins (wgt_drive D rnd n s)) = (n \<le> wgt_sent (wgt_drive D rnd n s))"
    by (simp add: d)
qed

lemma wgt_drive_frame:
  "core (wgt_drive D rnd n s) = core s"
  "vcd (wgt_drive D rnd n s) = vcd s"
  "main_time (wgt_drive D rnd n s) = main_time s"
  "console (wgt_drive D rnd n s) = console s"
  "start (pins (wgt_drive D rnd n s)) = start (pins s)"
  "outs D (wgt_drive D rnd n s) = outs D s"
  by (simp_all add: wgt_drive_def outs_def split: prod.splits)

lemma wgt_retire_frame:
  "core (wgt_retire D s) = core s"
  "vcd (wgt_retire D s) = vcd s"
  "main_time (wgt_retire D s) = main_time s"
  "console (wgt_retire D s) = console s"
  "wgt_sent (wgt_retire D s) = wgt_sent s"
  "beat_count (wgt_retire D s) = beat_count s"
  "rand_calls (wgt_retire D s) = rand_calls s"
  "start (pins (wgt_retire D s)) = start (pins s)"
  "wgt_in_data (pins (wgt_retire D s)) = wgt_in_data (pins s)"
  "wgt_in_last (pins (wgt_retire D s)) = wgt_in_last (pins s)"
  by (simp_all add: wgt_retire_def)

lemma tick_core:
  "core (tick D s) = dut_eval D ((pins s)\<lparr>clk := \<not> clk (pins s)\<rparr>) (core s)"
  "vcd (tick D s) = vcd s @ [(main_time s, (pins s)\<lparr>clk := \<not> clk (pins s)\<rparr>, outs D (tick D s))]"
  "main_time (tick D s) = main_time s + 1"
  by (simp_all add: tick_def Let_def outs_def)

lemma demo_ready: "wgt_in_ready (outs (dut_demo p q d e) s) = (core s mod p = 0)"
  "act_in_ready (outs (dut_demo p q d e) s) = (core s mod p = 0)"
  by (simp_all add: outs_def dut_demo_def)

lemma demo_tick: "core (tick (dut_demo p q d e) s) = core s + 1"
  by (simp add: tick_core dut_demo_def)

lemma demo_wgt_body: "core (wgt_body (dut_demo p q d e) rnd n s) = core s + 1"
  by (simp add: wgt_body_def wgt_retire_frame demo_tick wgt_drive_frame)


lemma core_init: "core (init u) = u"
  by (simp add: init_def)



text \<open>
  The example for C10: the same model at its count 0 (ready, a beat is driven) and at
  its count 1 (not ready, nothing changes).
\<close>

theorem valid_only_on_ready_witness:
  "wgt_in_ready (outs (dut_demo 4 0 False 0) (init 0))
   \<and> wgt_in_valid (pins (wgt_drive (dut_demo 4 0 False 0) rand_demo 70 (init 0)))
   \<and> \<not> wgt_in_ready (outs (dut_demo 4 0 False 0)
          (wgt_body (dut_demo 4 0 False 0) rand_demo 70 (init 0)))
   \<and> wgt_drive (dut_demo 4 0 False 0) rand_demo 70
        (wgt_body (dut_demo 4 0 False 0) rand_demo 70 (init 0))
      = wgt_body (dut_demo 4 0 False 0) rand_demo 70 (init 0)"
proof -
  let ?D = "dut_demo 4 0 False 0"
  let ?s = "wgt_body ?D rand_demo 70 (init 0)"
  have r: "wgt_in_ready (outs ?D (init 0))"
    by (simp add: demo_ready core_init)
  have n: "\<not> wgt_in_ready (outs ?D ?s)"
    by (simp add: demo_ready demo_wgt_body core_init)
  show ?thesis
    using r n valid_only_on_ready [of ?D "init 0" rand_demo 70]
      valid_only_on_ready [of ?D ?s rand_demo 70]
    by blast
qed

subsection \<open>The weight loop as a sequence of passes\<close>

lemma wgt_body_frame:
  "wgt_sent (wgt_body D rnd n s) = wgt_sent (wgt_drive D rnd n s)"
  "beat_count (wgt_body D rnd n s) = beat_count (wgt_drive D rnd n s)"
  "rand_calls (wgt_body D rnd n s) = rand_calls (wgt_drive D rnd n s)"
  "console (wgt_body D rnd n s) = console s"
  "length (vcd (wgt_body D rnd n s)) = length (vcd s) + 1"
  "main_time (wgt_body D rnd n s) = main_time s + 1"
  "start (pins (wgt_body D rnd n s)) = start (pins s)"
  by (simp_all add: wgt_body_def wgt_retire_frame tick_keeps tick_core wgt_drive_frame)



lemma wgt_body_sent:
  "wgt_sent (wgt_body D rnd n s) =
     (if wgt_in_ready (outs D s) then wgt_sent s + int (min 64 (nat (n - wgt_sent s)))
      else wgt_sent s)"
  by (simp add: wgt_body_frame wgt_drive_ready wgt_drive_stalled)

lemma wgt_body_beats:
  "beat_count (wgt_body D rnd n s) =
     (if wgt_in_ready (outs D s) then beat_count s + 1 else beat_count s)"
  by (simp add: wgt_body_frame wgt_drive_ready wgt_drive_stalled)


lemma beats_step:
  assumes "(s::int) < n"
  shows "(n - (s + int (min 64 (nat (n - s)))) + 63) div 64 + 1 = (n - s + 63) div 64"
proof (cases "64 \<le> n - s")
  case True
  then have m: "int (min 64 (nat (n - s))) = 64" by simp
  have "((n - (s + 64) + 63) + 64) div 64 = (n - (s + 64) + 63) div 64 + 1" by simp
  moreover have "(n - (s + 64) + 63) + 64 = n - s + 63" by simp
  ultimately show ?thesis unfolding m by simp
next
  case False
  then have m: "int (min 64 (nat (n - s))) = n - s" using assms by simp
  have "((n - s - 1) + 64) div 64 = (n - s - 1) div 64 + 1" by simp
  moreover have "(n - s - 1) div 64 = 0" using False assms by simp
  moreover have "(n - s - 1) + 64 = n - s + 63" by simp
  ultimately have "(n - s + 63) div 64 = 1" by simp
  then show ?thesis unfolding m by simp
qed

lemma wgt_loop_ready:
  assumes R: "\<And>u. wgt_in_ready (dut_out D u)"
  shows "wgt_sent s \<le> n \<Longrightarrow>
    \<exists>t. wgt_loop D rnd n s = Some t \<and> wgt_sent t = n
       \<and> beat_count t = beat_count s + (n - wgt_sent s + 63) div 64
       \<and> int (length (vcd t)) = int (length (vcd s)) + (n - wgt_sent s + 63) div 64
       \<and> console t = console s"
proof (induction "nat (n - wgt_sent s)" arbitrary: s rule: less_induct)
  case less
  show ?case
  proof (cases "wgt_sent s < n")
    case True
    let ?b = "wgt_body D rnd n s"
    have rdy: "wgt_in_ready (outs D s)" by (simp add: outs_def R)
    have sb: "wgt_sent ?b = wgt_sent s + int (min 64 (nat (n - wgt_sent s)))"
      using rdy by (simp add: wgt_body_sent)
    have le: "wgt_sent ?b \<le> n" using sb True by simp
    have dec: "nat (n - wgt_sent ?b) < nat (n - wgt_sent s)" using sb True by simp
    from less.hyps [OF dec le] obtain t where
      t: "wgt_loop D rnd n ?b = Some t" "wgt_sent t = n"
         "beat_count t = beat_count ?b + (n - wgt_sent ?b + 63) div 64"
         "int (length (vcd t)) = int (length (vcd ?b)) + (n - wgt_sent ?b + 63) div 64"
         "console t = console ?b"
      by blast
    have l: "wgt_loop D rnd n s = Some t"
      using True t(1) by (subst wgt_loop.simps) simp
    have bs: "(n - wgt_sent ?b + 63) div 64 + 1 = (n - wgt_sent s + 63) div 64"
      unfolding sb by (rule beats_step [OF True])
    have bc: "beat_count t = beat_count s + (n - wgt_sent s + 63) div 64"
      using t(3) bs rdy by (simp add: wgt_body_beats)
    have vl: "int (length (vcd t)) = int (length (vcd s)) + (n - wgt_sent s + 63) div 64"
      using t(4) bs by (simp add: wgt_body_frame)
    show ?thesis using l t(2) bc vl t(5) by (simp add: wgt_body_frame)
  next
    case False
    then have e: "wgt_sent s = n" using less.prems by simp
    have "wgt_loop D rnd n s = Some s"
      using False by (subst wgt_loop.simps) simp
    then show ?thesis using e by simp
  qed
qed


subsection \<open>The same for the activation loop\<close>

lemma act_drive_ready:
  assumes "act_in_ready (outs D s)"
  shows "act_sent (act_drive D rnd n s) = act_sent s + int (min 64 (nat (n - act_sent s)))"
    and "rand_calls (act_drive D rnd n s) = rand_calls s + min 64 (nat (n - act_sent s))"
    and "beat_count (act_drive D rnd n s) = beat_count s + 1"
    and "act_in_last (pins (act_drive D rnd n s)) = (n \<le> act_sent (act_drive D rnd n s))"
proof -
  obtain data sent r where
    p: "pack_beat rnd n 0 (act_in_data (pins s), act_sent s, rand_calls s) = (data, sent, r)"
    by (metis prod_cases3)
  have d: "act_drive D rnd n s =
      s\<lparr>pins := (pins s)\<lparr>act_in_valid := True, act_in_data := data,
                          act_in_last := (sent \<ge> n)\<rparr>,
        act_sent := sent, rand_calls := r, beat_count := beat_count s + 1\<rparr>"
    using assms p by (simp add: act_drive_def)
  note C = pack_beat_count [OF p]
  show "act_sent (act_drive D rnd n s) = act_sent s + int (min 64 (nat (n - act_sent s)))"
    using C by (simp add: d)
  show "rand_calls (act_drive D rnd n s) = rand_calls s + min 64 (nat (n - act_sent s))"
    using C by (simp add: d)
  show "beat_count (act_drive D rnd n s) = beat_count s + 1"
    by (simp add: d)
  show "act_in_last (pins (act_drive D rnd n s)) = (n \<le> act_sent (act_drive D rnd n s))"
    by (simp add: d)
qed

lemma act_drive_frame:
  "core (act_drive D rnd n s) = core s"
  "vcd (act_drive D rnd n s) = vcd s"
  "main_time (act_drive D rnd n s) = main_time s"
  "console (act_drive D rnd n s) = console s"
  "start (pins (act_drive D rnd n s)) = start (pins s)"
  "outs D (act_drive D rnd n s) = outs D s"
  by (simp_all add: act_drive_def outs_def split: prod.splits)

lemma act_retire_frame:
  "core (act_retire D s) = core s"
  "vcd (act_retire D s) = vcd s"
  "main_time (act_retire D s) = main_time s"
  "console (act_retire D s) = console s"
  "act_sent (act_retire D s) = act_sent s"
  "beat_count (act_retire D s) = beat_count s"
  "rand_calls (act_retire D s) = rand_calls s"
  "start (pins (act_retire D s)) = start (pins s)"
  "act_in_data (pins (act_retire D s)) = act_in_data (pins s)"
  "act_in_last (pins (act_retire D s)) = act_in_last (pins s)"
  by (simp_all add: act_retire_def)

lemma act_body_frame:
  "act_sent (act_body D rnd n s) = act_sent (act_drive D rnd n s)"
  "beat_count (act_body D rnd n s) = beat_count (act_drive D rnd n s)"
  "rand_calls (act_body D rnd n s) = rand_calls (act_drive D rnd n s)"
  "console (act_body D rnd n s) = console s"
  "length (vcd (act_body D rnd n s)) = length (vcd s) + 1"
  "main_time (act_body D rnd n s) = main_time s + 1"
  "start (pins (act_body D rnd n s)) = start (pins s)"
  by (simp_all add: act_body_def act_retire_frame tick_keeps tick_core act_drive_frame)



lemma act_body_sent:
  "act_sent (act_body D rnd n s) =
     (if act_in_ready (outs D s) then act_sent s + int (min 64 (nat (n - act_sent s)))
      else act_sent s)"
  by (simp add: act_body_frame act_drive_ready act_drive_stalled)

lemma act_body_beats:
  "beat_count (act_body D rnd n s) =
     (if act_in_ready (outs D s) then beat_count s + 1 else beat_count s)"
  by (simp add: act_body_frame act_drive_ready act_drive_stalled)


lemma act_loop_ready:
  assumes R: "\<And>u. act_in_ready (dut_out D u)"
  shows "act_sent s \<le> n \<Longrightarrow>
    \<exists>t. act_loop D rnd n s = Some t \<and> act_sent t = n
       \<and> beat_count t = beat_count s + (n - act_sent s + 63) div 64
       \<and> int (length (vcd t)) = int (length (vcd s)) + (n - act_sent s + 63) div 64
       \<and> console t = console s"
proof (induction "nat (n - act_sent s)" arbitrary: s rule: less_induct)
  case less
  show ?case
  proof (cases "act_sent s < n")
    case True
    let ?b = "act_body D rnd n s"
    have rdy: "act_in_ready (outs D s)" by (simp add: outs_def R)
    have sb: "act_sent ?b = act_sent s + int (min 64 (nat (n - act_sent s)))"
      using rdy by (simp add: act_body_sent)
    have le: "act_sent ?b \<le> n" using sb True by simp
    have dec: "nat (n - act_sent ?b) < nat (n - act_sent s)" using sb True by simp
    from less.hyps [OF dec le] obtain t where
      t: "act_loop D rnd n ?b = Some t" "act_sent t = n"
         "beat_count t = beat_count ?b + (n - act_sent ?b + 63) div 64"
         "int (length (vcd t)) = int (length (vcd ?b)) + (n - act_sent ?b + 63) div 64"
         "console t = console ?b"
      by blast
    have l: "act_loop D rnd n s = Some t"
      using True t(1) by (subst act_loop.simps) simp
    have bs: "(n - act_sent ?b + 63) div 64 + 1 = (n - act_sent s + 63) div 64"
      unfolding sb by (rule beats_step [OF True])
    have bc: "beat_count t = beat_count s + (n - act_sent s + 63) div 64"
      using t(3) bs rdy by (simp add: act_body_beats)
    have vl: "int (length (vcd t)) = int (length (vcd s)) + (n - act_sent s + 63) div 64"
      using t(4) bs by (simp add: act_body_frame)
    show ?thesis using l t(2) bc vl t(5) by (simp add: act_body_frame)
  next
    case False
    then have e: "act_sent s = n" using less.prems by simp
    have "act_loop D rnd n s = Some s"
      using False by (subst act_loop.simps) simp
    then show ?thesis using e by simp
  qed
qed


subsection \<open>Exactly one beat carries the last flag\<close>

lemma demo_always: "wgt_in_ready (dut_out (dut_demo 1 q d e) u)" "act_in_ready (dut_out (dut_demo 1 q d e) u)"
  by (simp_all add: dut_demo_def)




subsection \<open>The sizes of the test configuration\<close>

lemma scenario_sizes:
  "wgt_elements = 2304" "wgt_beats = 36" "act_elements = 1024" "act_beats = 16"
  "out_elements = 576" "OH = 6" "OW = 6"
  by (simp_all add: wgt_elements_def wgt_beats_def act_elements_def act_beats_def
      out_elements_def OH_def OW_def W_def H_def IC_def OC_def stride_def act_bits_def
      wgt_bits_def c_div_def)

lemma wgt_phase_ready:
  assumes R: "\<And>u. wgt_in_ready (dut_out D u)" and n: "0 \<le> n"
  shows "\<exists>t. wgt_phase D rnd n b s = Some t \<and> wgt_sent t = n
       \<and> beat_count t = (n + 63) div 64
       \<and> int (length (vcd t)) = int (length (vcd s)) + (n + 63) div 64
       \<and> console t = console s @ [SendingWeights n b, WeightsSent n ((n + 63) div 64)]"
proof -
  let ?s0 = "(printf (SendingWeights n b) s)\<lparr>wgt_sent := 0, beat_count := 0\<rparr>"
  have "wgt_sent ?s0 \<le> n" using n by simp
  from wgt_loop_ready [of D ?s0 n rnd, OF R this] obtain t where
    t: "wgt_loop D rnd n ?s0 = Some t" "wgt_sent t = n"
       "beat_count t = beat_count ?s0 + (n - wgt_sent ?s0 + 63) div 64"
       "int (length (vcd t)) = int (length (vcd ?s0)) + (n - wgt_sent ?s0 + 63) div 64"
       "console t = console ?s0"
    by blast
  have p: "wgt_phase D rnd n b s =
      Some (printf (WeightsSent (wgt_sent t) (beat_count t))
              (t\<lparr>pins := (pins t)\<lparr>wgt_in_valid := False\<rparr>\<rparr>))"
    using t(1) by (simp add: wgt_phase_def Let_def)
  have b: "beat_count t = (n + 63) div 64" using t(3) by simp
  have v: "int (length (vcd t)) = int (length (vcd s)) + (n + 63) div 64"
    using t(4) by (simp add: printf_def)
  have c: "console t = console s @ [SendingWeights n b]"
    using t(5) by (simp add: printf_def)
  show ?thesis
    unfolding p using t(2) b v c by (simp add: printf_def)
qed

lemma act_phase_ready:
  assumes R: "\<And>u. act_in_ready (dut_out D u)" and n: "0 \<le> n"
  shows "\<exists>t. act_phase D rnd n b s = Some t \<and> act_sent t = n
       \<and> beat_count t = (n + 63) div 64
       \<and> int (length (vcd t)) = int (length (vcd s)) + (n + 63) div 64
       \<and> console t = console s @ [SendingActivations n b, ActivationsSent n ((n + 63) div 64)]"
proof -
  let ?s0 = "(printf (SendingActivations n b) s)\<lparr>act_sent := 0, beat_count := 0\<rparr>"
  have "act_sent ?s0 \<le> n" using n by simp
  from act_loop_ready [of D ?s0 n rnd, OF R this] obtain t where
    t: "act_loop D rnd n ?s0 = Some t" "act_sent t = n"
       "beat_count t = beat_count ?s0 + (n - act_sent ?s0 + 63) div 64"
       "int (length (vcd t)) = int (length (vcd ?s0)) + (n - act_sent ?s0 + 63) div 64"
       "console t = console ?s0"
    by blast
  have p: "act_phase D rnd n b s =
      Some (printf (ActivationsSent (act_sent t) (beat_count t))
              (t\<lparr>pins := (pins t)\<lparr>act_in_valid := False\<rparr>\<rparr>))"
    using t(1) by (simp add: act_phase_def Let_def)
  have b: "beat_count t = (n + 63) div 64" using t(3) by simp
  have v: "int (length (vcd t)) = int (length (vcd s)) + (n + 63) div 64"
    using t(4) by (simp add: printf_def)
  have c: "console t = console s @ [SendingActivations n b]"
    using t(5) by (simp add: printf_def)
  show ?thesis
    unfolding p using t(2) b v c by (simp add: printf_def)
qed

text \<open>
  C2. For the configuration of lines 82--84 the bench computes 2304 weight elements in
  36 beats, 1024 activation elements in 16 beats and 576 output elements. Against a
  model whose \<open>wgt_in_ready\<close> and \<open>act_in_ready\<close> are high whenever they are read, the
  weight phase returns after exactly 36 clock steps with 36 beats counted and all 2304
  elements sent, and the activation phase after exactly 16 clock steps with 16 beats
  and 1024 elements; the bench prints these numbers.
\<close>

theorem scenario_counts:
  assumes "\<forall>u. wgt_in_ready (dut_out D u) \<and> act_in_ready (dut_out D u)"
  shows "wgt_elements = 2304 \<and> wgt_beats = 36 \<and> act_elements = 1024 \<and> act_beats = 16
    \<and> out_elements = 576
    \<and> (\<exists>t. wgt_phase D rnd wgt_elements wgt_beats s = Some t \<and> wgt_sent t = 2304
          \<and> beat_count t = 36 \<and> length (vcd t) = length (vcd s) + 36
          \<and> console t = console s @ [SendingWeights 2304 36, WeightsSent 2304 36])
    \<and> (\<exists>t. act_phase D rnd act_elements act_beats s = Some t \<and> act_sent t = 1024
          \<and> beat_count t = 16 \<and> length (vcd t) = length (vcd s) + 16
          \<and> console t = console s @ [SendingActivations 1024 16, ActivationsSent 1024 16])"
proof -
  have rw: "\<And>u. wgt_in_ready (dut_out D u)" and ra: "\<And>u. act_in_ready (dut_out D u)"
    using assms by blast+
  from wgt_phase_ready [of D 2304 rnd 36 s, OF rw] obtain t where
    t: "wgt_phase D rnd 2304 36 s = Some t" "wgt_sent t = 2304"
       "beat_count t = (2304 + 63) div 64"
       "int (length (vcd t)) = int (length (vcd s)) + (2304 + 63) div 64"
       "console t = console s @ [SendingWeights 2304 36, WeightsSent 2304 ((2304 + 63) div 64)]"
    by auto
  from act_phase_ready [of D 1024 rnd 16 s, OF ra] obtain t' where
    t': "act_phase D rnd 1024 16 s = Some t'" "act_sent t' = 1024"
       "beat_count t' = (1024 + 63) div 64"
       "int (length (vcd t')) = int (length (vcd s)) + (1024 + 63) div 64"
       "console t' = console s @ [SendingActivations 1024 16, ActivationsSent 1024 ((1024 + 63) div 64)]"
    by auto
  have w: "\<exists>t. wgt_phase D rnd wgt_elements wgt_beats s = Some t \<and> wgt_sent t = 2304
          \<and> beat_count t = 36 \<and> length (vcd t) = length (vcd s) + 36
          \<and> console t = console s @ [SendingWeights 2304 36, WeightsSent 2304 36]"
    using t by (intro exI [of _ t]) (simp add: scenario_sizes)
  have a: "\<exists>t. act_phase D rnd act_elements act_beats s = Some t \<and> act_sent t = 1024
          \<and> beat_count t = 16 \<and> length (vcd t) = length (vcd s) + 16
          \<and> console t = console s @ [SendingActivations 1024 16, ActivationsSent 1024 16]"
    using t' by (intro exI [of _ t']) (simp add: scenario_sizes)
  show ?thesis using w a by (simp add: scenario_sizes)
qed

theorem scenario_counts_witness:
  "wgt_beats = 36 \<and> act_beats = 16
    \<and> (\<exists>t. wgt_phase (dut_demo 1 0 False 0) rand_demo wgt_elements wgt_beats (init 0) = Some t
          \<and> beat_count t = 36 \<and> length (vcd t) = length (vcd (init (0::nat))) + 36)
    \<and> (\<exists>t. act_phase (dut_demo 1 0 False 0) rand_demo act_elements act_beats (init 0) = Some t
          \<and> beat_count t = 16 \<and> length (vcd t) = length (vcd (init (0::nat))) + 16)"
proof -
  have r: "\<forall>u. wgt_in_ready (dut_out (dut_demo 1 0 False 0) u)
             \<and> act_in_ready (dut_out (dut_demo 1 0 False 0) u)"
    by (intro allI conjI demo_always)
  show ?thesis
    using scenario_counts [OF r, of rand_demo "init 0"] by blast
qed

subsection \<open>The output loop\<close>

lemma out_done_frame:
  "cycles (fst (out_done D s)) = cycles s"
  "out_received (fst (out_done D s)) = out_received s"
  "vcd (fst (out_done D s)) = vcd s"
  "main_time (fst (out_done D s)) = main_time s"
  "pins (fst (out_done D s)) = pins s"
  "core (fst (out_done D s)) = core s"
  "\<not> done_sig (outs D s) \<Longrightarrow> out_done D s = (s, False)"
  by (simp_all add: out_done_def printf_def)

lemma tick_pins: "pins (tick D s) = (pins s)\<lparr>clk := \<not> clk (pins s)\<rparr>"
  by (simp add: tick_def Let_def)

lemma out_body_frame:
  "cycles (fst (out_body D s)) = cycles s + 1"
  "out_received (fst (out_body D s)) =
     out_received s + (if out_valid (outs D (tick D s)) \<and> out_ready (pins s) then 4 else 0)"
  "vcd (fst (out_body D s)) =
     vcd s @ [(main_time s, (pins s)\<lparr>clk := \<not> clk (pins s)\<rparr>, outs D (tick D s))]"
  "main_time (fst (out_body D s)) = main_time s + 1"
  "pins (fst (out_body D s)) = (pins s)\<lparr>clk := \<not> clk (pins s)\<rparr>"
  "core (fst (out_body D s)) = core (tick D s)"
  by (simp_all add: out_body_def Let_def out_done_frame printf_def outs_def tick_keeps
      tick_core tick_pins)



lemma accepted_sample:
  "accepted (tm, p, out) = (out_valid out \<and> out_ready p)"
  by (simp add: accepted_def)

lemma out_loop_trace:
  "\<exists>w. vcd (out_loop D mx n s) = vcd s @ w
     \<and> out_received (out_loop D mx n s) = out_received s + 4 * int (length (filter accepted w))
     \<and> (out_received s \<le> n + 3 \<longrightarrow> out_received (out_loop D mx n s) \<le> n + 3)"
proof (induction D mx n s rule: out_loop.induct)
  case (1 D mx n s)
  show ?case
  proof (cases "cycles s < mx \<and> out_received s < n")
    case True
    obtain s' brk where b: "out_body D s = (s', brk)" by fastforce
    let ?x = "(main_time s, (pins s)\<lparr>clk := \<not> clk (pins s)\<rparr>, outs D (tick D s))"
    have s': "s' = fst (out_body D s)" using b by simp
    have v: "vcd s' = vcd s @ [?x]" unfolding s' by (simp add: out_body_frame)
    have r: "out_received s' = out_received s + 4 * int (length (filter accepted [?x]))"
      unfolding s' by (simp add: out_body_frame accepted_sample)
    have bd: "out_received s' \<le> n + 3" using r True by simp
    show ?thesis
    proof (cases brk)
      case True
      have u: "out_loop D mx n s = s'"
        using \<open>cycles s < mx \<and> out_received s < n\<close> b True by (subst out_loop.simps) simp
      show ?thesis unfolding u using v r bd by blast
    next
      case False
      have u: "out_loop D mx n s = out_loop D mx n s'"
        using True b False by (subst out_loop.simps) simp
      from "1.IH" [OF True b [symmetric] False] obtain w where
        w: "vcd (out_loop D mx n s') = vcd s' @ w"
           "out_received (out_loop D mx n s')
              = out_received s' + 4 * int (length (filter accepted w))"
           "out_received s' \<le> n + 3 \<longrightarrow> out_received (out_loop D mx n s') \<le> n + 3"
        by blast
      have "vcd (out_loop D mx n s') = vcd s @ (?x # w)" using w(1) v by simp
      moreover have "out_received (out_loop D mx n s')
          = out_received s + 4 * int (length (filter accepted (?x # w)))"
        using w(2) r by simp
      moreover have "out_received (out_loop D mx n s') \<le> n + 3" using w(3) bd by blast
      ultimately show ?thesis unfolding u by blast
    qed
  next
    case False
    have "out_loop D mx n s = s"
      by (subst out_loop.simps) (simp only: False if_False)
    then show ?thesis by simp
  qed
qed





text \<open>
  C9. The loop adds exactly 4 to \<open>out_received\<close> for each accepted beat (each sample of
  the dump with \<open>out_valid\<close> and \<open>out_ready\<close> high) and nothing otherwise. A pass is entered
  only below the target, so a counter that is at most the target plus 3 stays so after
  every pass and at the exit of the loop.
\<close>

theorem out_received_bound:
  assumes "out_received s \<le> n + 3"
  shows "(\<exists>w. vcd (out_loop D mx n s) = vcd s @ w
          \<and> out_received (out_loop D mx n s)
              = out_received s + 4 * int (length (filter accepted w)))
    \<and> out_received (out_loop D mx n s) \<le> n + 3
    \<and> (cycles s < mx \<and> out_received s < n \<longrightarrow>
          out_received (fst (out_body D s)) \<le> n + 3
          \<and> out_received (fst (out_body D s))
              = out_received s + (if accepted (last (vcd (fst (out_body D s)))) then 4 else 0))"
proof -
  from out_loop_trace [of D mx n s] obtain w where
    w: "vcd (out_loop D mx n s) = vcd s @ w"
       "out_received (out_loop D mx n s) = out_received s + 4 * int (length (filter accepted w))"
       "out_received s \<le> n + 3 \<longrightarrow> out_received (out_loop D mx n s) \<le> n + 3"
    by blast
  have b: "out_received (fst (out_body D s))
      = out_received s + (if accepted (last (vcd (fst (out_body D s)))) then 4 else 0)"
    by (simp add: out_body_frame accepted_sample)
  then have "out_received s < n \<longrightarrow> out_received (fst (out_body D s)) \<le> n + 3"
    by simp
  then show ?thesis using w assms b by blast
qed

text \<open>The example: the loop as \<open>main\<close> enters it, against a model that offers a beat at every step.\<close>

theorem out_received_bound_witness:
  "(\<exists>w. vcd (out_loop (dut_demo 1 1 False 0) max_cycles out_elements (init 0))
            = vcd (init (0::nat)) @ w
          \<and> out_received (out_loop (dut_demo 1 1 False 0) max_cycles out_elements (init 0))
              = out_received (init (0::nat)) + 4 * int (length (filter accepted w)))
    \<and> out_received (out_loop (dut_demo 1 1 False 0) max_cycles out_elements (init 0))
        \<le> out_elements + 3
    \<and> out_received (fst (out_body (dut_demo 1 1 False 0) (init 0))) \<le> out_elements + 3"
proof -
  have b: "out_received (init (0::nat)) \<le> out_elements + 3"
    by (simp add: init_def scenario_sizes)
  have g: "cycles (init (0::nat)) < max_cycles \<and> out_received (init (0::nat)) < out_elements"
    by (simp add: init_def scenario_sizes max_cycles_def)
  from out_received_bound [OF b, of "dut_demo 1 1 False 0" max_cycles] g
  show ?thesis by blast
qed

end
